theory Spec2Isabelle
  imports Complex_Main "HOL-Library.Char_ord" "HOL-Library.Multiset"
begin

section \<open>Character constants of \<open>core.py\<close>\<close>

text \<open>
  Python strings are modelled as \<open>string\<close> (lists of \<open>char\<close>), one \<open>char\<close> for
  one code point, so that \<open>length\<close> is Python's \<open>len\<close>; every constant of the module
  is ASCII.  The characters that cannot be written inside a string literal
  are given by their code: \<open>0x22\<close> is the double quote, \<open>0x27\<close> the single quote,
  \<open>0x5C\<close> the backslash and \<open>0x60\<close> the backquote.  \<open>sorted\<close> on characters is
  the code-point order, which is the order of \<open>char\<close> from \<open>Char_ord\<close>.
\<close>

definition ascii_lowercase :: string where
  "ascii_lowercase = ''abcdefghijklmnopqrstuvwxyz''"

definition ascii_uppercase :: string where
  "ascii_uppercase = ''ABCDEFGHIJKLMNOPQRSTUVWXYZ''"

definition digits_chars :: string where
  "digits_chars = ''0123456789''"

definition punctuation :: string where
  "punctuation = ''!'' @ [CHR 0x22] @ ''#$%&'' @ [CHR 0x27] @ ''()*+,-./:;<=>?@[''
      @ [CHR 0x5C] @ '']^_'' @ [CHR 0x60] @ ''{|}~''"

definition AMBIGUOUS_DEFAULT :: "char set" where
  "AMBIGUOUS_DEFAULT = set (''O0oIl1|'' @ [CHR 0x60, CHR 0x27, CHR 0x22] @ ''{}[]()/''
      @ [CHR 0x5C] @ '';:,.<>'')"

definition URL_SAFE_UNRESERVED :: string where
  "URL_SAFE_UNRESERVED =
     ''ABCDEFGHIJKLMNOPQRSTUVWXYZabcdefghijklmnopqrstuvwxyz0123456789-._~''"

definition whitespace :: string where
  "whitespace = [CHR 0x0D, CHR 0x0A, CHR 0x09, CHR 0x20]"

section \<open>Errors and arguments\<close>

text \<open>
  Every \<open>sys.exit\<close> of the module is a branch returning an error value, named as in
  the specification's taxonomy.  The two Python exceptions the generator can raise
  (\<open>pool_map[name]\<close> on an unknown class name, \<open>choice\<close> on an empty sequence) are
  errors too.
\<close>

datatype error =
    EmptySelection
  | EmptyPool
  | InvalidLength
  | PoolTooSmall
  | UnsatisfiableClass "string list"
  | LengthBelowClassCount
  | InsufficientUniqueChars
  | KeyError string
  | IndexError

text \<open>
  The \<open>args\<close> namespace, with the fields the core reads.  \<open>length_arg\<close> and
  \<open>count_arg\<close> are \<open>args.length\<close> and \<open>args.count\<close> (Python integers).
\<close>

record args =
  lower :: bool
  upper :: bool
  digits :: bool
  symbols :: bool
  symbols_set :: "string option"
  exclude :: string
  no_ambiguous :: bool
  url_safe :: bool
  length_arg :: int
  count_arg :: int
  require_classes :: bool
  no_repeat :: bool
  prefix :: string
  suffix :: string

section \<open>The secure random source\<close>

text \<open>
  \<open>secrets.randbelow\<close> and \<open>secrets.choice\<close> read the operating system's random
  source.  The source is modelled as an infinite tape of natural numbers that is passed
  through the computation; \<open>randbelow n\<close> reduces the next entry below \<open>n\<close>.  Every
  sequence of draws the real source can deliver is produced by some tape, so a property
  proved for all tapes holds for every run.  \<open>randbelow\<close> is only ever called with a
  positive bound (\<open>i + 1\<close> in the shuffle, the length of a non-empty sequence in
  \<open>choice\<close>).
\<close>

type_synonym rng = "nat \<Rightarrow> nat"

definition randbelow :: "nat \<Rightarrow> rng \<Rightarrow> nat \<times> rng" where
  "randbelow n r = (r 0 mod n, \<lambda>k. r (Suc k))"

definition choice :: "'a list \<Rightarrow> rng \<Rightarrow> error + ('a \<times> rng)" where
  "choice s r =
     (if s = [] then Inl IndexError
      else (let (j, r') = randbelow (length s) r in Inr (s ! j, r')))"

text \<open>
  \<open>secure_shuffle\<close>: \<open>i\<close> runs from \<open>len(lst) - 1\<close> down to \<open>1\<close>; the tuple
  assignment writes the old \<open>lst[j]\<close> to position \<open>i\<close> and the old \<open>lst[i]\<close> to
  position \<open>j\<close>.
\<close>

fun shuffle_from :: "nat \<Rightarrow> 'a list \<Rightarrow> rng \<Rightarrow> 'a list \<times> rng" where
  "shuffle_from 0 lst r = (lst, r)"
| "shuffle_from (Suc i') lst r =
     (let i = Suc i';
          (j, r') = randbelow (i + 1) r
      in shuffle_from i' (lst[i := lst ! j, j := lst ! i]) r')"

definition secure_shuffle :: "'a list \<Rightarrow> rng \<Rightarrow> 'a list \<times> rng" where
  "secure_shuffle lst r = shuffle_from (length lst - 1) lst r"

section \<open>Pool construction\<close>

text \<open>
  The two dictionaries of \<open>build_pool\<close> are association lists in insertion order;
  the pool is a set of characters until \<open>sorted\<close> turns it into a string.
\<close>

definition build_pool :: "'a args_scheme \<Rightarrow> error + (string \<times> string list)" where
  "build_pool a =
     (let includes_specified = (lower a \<or> upper a \<or> digits a \<or> symbols a);
          classes =
            [(''lower'', ascii_lowercase),
             (''upper'', ascii_uppercase),
             (''digits'', digits_chars),
             (''symbols'', case symbols_set a of None \<Rightarrow> punctuation | Some s \<Rightarrow> s)];
          (pool_parts, class_names) =
            (if url_safe a then ([URL_SAFE_UNRESERVED], [''url_safe''])
             else
               (let selected_classes =
                      (if includes_specified
                       then [(''lower'', lower a), (''upper'', upper a),
                             (''digits'', digits a), (''symbols'', symbols a)]
                       else [(''lower'', True), (''upper'', True),
                             (''digits'', True), (''symbols'', True)])
                in ([chars. (name, chars) \<leftarrow> classes,
                            map_of selected_classes name = Some True],
                    [name. (name, ok) \<leftarrow> selected_classes, ok])))
      in if pool_parts = [] then Inl EmptySelection
         else
           (let pool0 = set (concat pool_parts);
                pool1 = (if no_ambiguous a \<and> \<not> url_safe a
                         then pool0 - AMBIGUOUS_DEFAULT else pool0);
                pool2 = (if exclude a \<noteq> [] then pool1 - set (exclude a) else pool1);
                pool3 = pool2 - set whitespace
            in if pool3 = {} then Inl EmptyPool
               else Inr (sorted_list_of_set pool3, class_names)))"

definition build_pool_map :: "string \<Rightarrow> (string \<rightharpoonup> string)" where
  "build_pool_map pool =
     [''lower'' \<mapsto> sorted_list_of_set (set pool \<inter> set ascii_lowercase),
      ''upper'' \<mapsto> sorted_list_of_set (set pool \<inter> set ascii_uppercase),
      ''digits'' \<mapsto> sorted_list_of_set (set pool \<inter> set digits_chars),
      ''symbols'' \<mapsto> sorted_list_of_set (set pool \<inter> set punctuation)]"

section \<open>Constraint validation\<close>

text \<open>
  \<open>pool_map.get(n)\<close> is falsy both for a missing key and for an empty string.
\<close>

definition ensure_requirements ::
  "int \<Rightarrow> string list \<Rightarrow> bool \<Rightarrow> bool \<Rightarrow> string \<Rightarrow> error + unit" where
  "ensure_requirements len class_names req_classes no_rep pool =
     (if len < 1 then Inl InvalidLength
      else if no_rep \<and> len > int (length pool) then Inl PoolTooSmall
      else if req_classes \<and> ''url_safe'' \<notin> set class_names then
        (let pool_map = build_pool_map pool;
             missing = [n \<leftarrow> class_names.
                          (case pool_map n of None \<Rightarrow> True | Some s \<Rightarrow> s = [])]
         in if missing \<noteq> [] then Inl (UnsatisfiableClass missing)
            else (let needed = int (length class_names)
                  in if len < needed then Inl LengthBelowClassCount else Inr ()))
      else Inr ())"

section \<open>Generation\<close>

fun pick_from_each_class ::
  "string list \<Rightarrow> (string \<rightharpoonup> string) \<Rightarrow> rng \<Rightarrow> error + (string \<times> rng)" where
  "pick_from_each_class [] pool_map r = Inr ([], r)"
| "pick_from_each_class (name # names) pool_map r =
     (if name = ''url_safe'' then pick_from_each_class names pool_map r
      else
        (case pool_map name of
           None \<Rightarrow> Inl (KeyError name)
         | Some s \<Rightarrow>
             (case choice s r of
                Inl e \<Rightarrow> Inl e
              | Inr (c, r') \<Rightarrow>
                  (case pick_from_each_class names pool_map r' of
                     Inl e \<Rightarrow> Inl e
                   | Inr (picks, r'') \<Rightarrow> Inr (c # picks, r'')))))"

text \<open>The seeding step at the head of the loop body.\<close>

definition seed_chars ::
  "string list \<Rightarrow> (string \<rightharpoonup> string) \<Rightarrow> 'a args_scheme \<Rightarrow> rng \<Rightarrow> error + (string \<times> rng)" where
  "seed_chars class_names pool_map a r =
     (if require_classes a \<and> \<not> url_safe a
      then pick_from_each_class class_names pool_map r
      else Inr ([], r))"

text \<open>The fill loop of the branch that allows repeats: \<open>remaining\<close> draws from the pool.\<close>

fun fill_repeat :: "nat \<Rightarrow> string \<Rightarrow> rng \<Rightarrow> error + (string \<times> rng)" where
  "fill_repeat 0 pool r = Inr ([], r)"
| "fill_repeat (Suc n) pool r =
     (case choice pool r of
        Inl e \<Rightarrow> Inl e
      | Inr (c, r') \<Rightarrow>
          (case fill_repeat n pool r' of
             Inl e \<Rightarrow> Inl e
           | Inr (cs, r'') \<Rightarrow> Inr (c # cs, r'')))"

text \<open>
  The fill step: \<open>remaining\<close> has been floored at 0, so it is a natural number.  In the
  no-repeat branch the candidates are shuffled before their number is checked.
\<close>

definition fill_chars ::
  "string \<Rightarrow> 'a args_scheme \<Rightarrow> string \<Rightarrow> nat \<Rightarrow> rng \<Rightarrow> error + (string \<times> rng)" where
  "fill_chars pool a chars remaining r =
     (if no_repeat a then
        (let used = set chars;
             available = [c \<leftarrow> pool. c \<notin> used];
             (av_list, r') = secure_shuffle available r
         in if length av_list < remaining then Inl InsufficientUniqueChars
            else Inr (take remaining av_list, r'))
      else fill_repeat remaining pool r)"

text \<open>One iteration of the loop: the core of one password.\<close>

definition generate_core ::
  "string \<Rightarrow> string list \<Rightarrow> (string \<rightharpoonup> string) \<Rightarrow> 'a args_scheme \<Rightarrow> rng
     \<Rightarrow> error + (string \<times> rng)" where
  "generate_core pool class_names pool_map a r =
     (case seed_chars class_names pool_map a r of
        Inl e \<Rightarrow> Inl e
      | Inr (chars, r1) \<Rightarrow>
          (let remaining = length_arg a - int (length chars);
               remaining = (if remaining < 0 then 0 else remaining)
           in case fill_chars pool a chars (nat remaining) r1 of
                Inl e \<Rightarrow> Inl e
              | Inr (extra, r2) \<Rightarrow> Inr (secure_shuffle (chars @ extra) r2)))"

fun generate_loop ::
  "nat \<Rightarrow> string \<Rightarrow> string list \<Rightarrow> (string \<rightharpoonup> string) \<Rightarrow> 'a args_scheme \<Rightarrow> rng
     \<Rightarrow> string list \<Rightarrow> error + string list" where
  "generate_loop 0 pool class_names pool_map a r passwords = Inr passwords"
| "generate_loop (Suc n) pool class_names pool_map a r passwords =
     (case generate_core pool class_names pool_map a r of
        Inl e \<Rightarrow> Inl e
      | Inr (core, r') \<Rightarrow>
          (let pwd = prefix a @ core @ suffix a
           in generate_loop n pool class_names pool_map a r' (passwords @ [pwd])))"

definition generate_passwords ::
  "string \<Rightarrow> string list \<Rightarrow> 'a args_scheme \<Rightarrow> rng \<Rightarrow> error + string list" where
  "generate_passwords pool class_names a r =
     generate_loop (nat (count_arg a)) pool class_names (build_pool_map pool) a r []"

section \<open>Entropy estimate\<close>

text \<open>
  The guard of \<open>bits_of_entropy\<close> compares integers; the product and \<open>math.log2\<close> are
  taken over the reals.
\<close>

definition bits_of_entropy :: "int \<Rightarrow> int \<Rightarrow> real" where
  "bits_of_entropy pool_size len =
     (if pool_size \<le> 1 \<or> len \<le> 0 then 0.0
      else real_of_int len * log 2 (real_of_int pool_size))"

section \<open>Notions used to state the properties\<close>

text \<open>
  The specification's data model: the active-class list is either the single sentinel
  \<open>url_safe\<close> or a duplicate-free selection of the four standard classes.  These are
  the lists \<open>build_pool\<close> returns (lemma \<open>build_pool_classes_ok\<close> below).
\<close>

definition standard_classes :: "string list" where
  "standard_classes = [''lower'', ''upper'', ''digits'', ''symbols'']"

definition active_classes_ok :: "string list \<Rightarrow> bool" where
  "active_classes_ok class_names \<longleftrightarrow>
     class_names = [''url_safe''] \<or>
     (distinct class_names \<and> set class_names \<subseteq> set standard_classes)"

text \<open>
  A configuration is validated for a pool and a class list when \<open>ensure_requirements\<close>,
  called the way \<open>main\<close> calls it, returns normally.
\<close>

definition validated :: "string \<Rightarrow> string list \<Rightarrow> 'a args_scheme \<Rightarrow> bool" where
  "validated pool class_names a \<longleftrightarrow>
     ensure_requirements (length_arg a) class_names (require_classes a) (no_repeat a) pool
       = Inr ()"

text \<open>The core of a password: what lies between the prefix and the suffix.\<close>

definition core_of :: "'a args_scheme \<Rightarrow> string \<Rightarrow> string" where
  "core_of a pwd =
     take (length pwd - length (prefix a) - length (suffix a)) (drop (length (prefix a)) pwd)"

text \<open>
  The two halves of \<open>build_pool\<close>, named so that its result can be described: the
  pair \<open>(pool_parts, class_names)\<close> with the comprehensions over the two dictionaries
  carried out, and the character set left by the filters.  Lemma \<open>build_pool_eq\<close>
  proves that \<open>build_pool\<close> is their composition.
\<close>

definition selected_parts :: "'a args_scheme \<Rightarrow> string list \<times> string list" where
  "selected_parts a =
     (if url_safe a then ([URL_SAFE_UNRESERVED], [''url_safe''])
      else
        (let all = \<not> (lower a \<or> upper a \<or> digits a \<or> symbols a)
         in ((if all \<or> lower a then [ascii_lowercase] else []) @
             (if all \<or> upper a then [ascii_uppercase] else []) @
             (if all \<or> digits a then [digits_chars] else []) @
             (if all \<or> symbols a
              then [case symbols_set a of None \<Rightarrow> punctuation | Some s \<Rightarrow> s] else []),
             (if all \<or> lower a then [''lower''] else []) @
             (if all \<or> upper a then [''upper''] else []) @
             (if all \<or> digits a then [''digits''] else []) @
             (if all \<or> symbols a then [''symbols''] else []))))"

definition filtered_pool :: "'a args_scheme \<Rightarrow> string list \<Rightarrow> char set" where
  "filtered_pool a pool_parts =
     (let pool0 = set (concat pool_parts);
          pool1 = (if no_ambiguous a \<and> \<not> url_safe a
                   then pool0 - AMBIGUOUS_DEFAULT else pool0);
          pool2 = (if exclude a \<noteq> [] then pool1 - set (exclude a) else pool1)
      in pool2 - set whitespace)"

text \<open>The URL-safe constant in code-point order.\<close>

definition url_safe_sorted :: string where
  "url_safe_sorted = ''-.0123456789ABCDEFGHIJKLMNOPQRSTUVWXYZ_abcdefghijklmnopqrstuvwxyz~''"

text \<open>
  The class-membership helper as the specification words it: each standard class is
  mapped to the intersection of the pool with the class's base set, and the base set of
  \<open>symbols\<close> is the caller's override when there is one.  It is compared with
  \<open>build_pool_map\<close>, which is the helper of the source.
\<close>

definition class_membership_spec :: "string option \<Rightarrow> string \<Rightarrow> (string \<rightharpoonup> string)" where
  "class_membership_spec override pool =
     [''lower'' \<mapsto> sorted_list_of_set (set pool \<inter> set ascii_lowercase),
      ''upper'' \<mapsto> sorted_list_of_set (set pool \<inter> set ascii_uppercase),
      ''digits'' \<mapsto> sorted_list_of_set (set pool \<inter> set digits_chars),
      ''symbols'' \<mapsto> sorted_list_of_set
         (set pool \<inter> set (case override of None \<Rightarrow> punctuation | Some s \<Rightarrow> s))]"

text \<open>
  The validator as the specification words it, over the slices of
  \<open>class_membership_spec\<close>: the class requirement is checked when the class list is
  not the sentinel, and a class is unsatisfiable when its slice is empty.  It is compared
  with \<open>ensure_requirements\<close>, which is the validator of the source.
\<close>

definition validate_spec ::
  "string option \<Rightarrow> int \<Rightarrow> string list \<Rightarrow> bool \<Rightarrow> bool \<Rightarrow> string \<Rightarrow> error + unit" where
  "validate_spec override len class_names req_classes no_rep pool =
     (if len < 1 then Inl InvalidLength
      else if no_rep \<and> int (length pool) < len then Inl PoolTooSmall
      else if req_classes \<and> class_names \<noteq> [''url_safe''] then
        (let empty_classes =
               [n \<leftarrow> class_names.
                  (case class_membership_spec override pool n of
                     None \<Rightarrow> True | Some s \<Rightarrow> s = [])]
         in if empty_classes \<noteq> [] then Inl (UnsatisfiableClass empty_classes)
            else if len < int (length class_names) then Inl LengthBelowClassCount
            else Inr ())
      else Inr ())"

subsection \<open>Concrete arguments\<close>

text \<open>The command line without any option.\<close>

definition default_args :: args where
  "default_args =
     \<lparr>lower = False, upper = False, digits = False, symbols = False, symbols_set = None,
      exclude = [], no_ambiguous = False, url_safe = False, length_arg = 16, count_arg = 1,
      require_classes = False, no_repeat = False, prefix = [], suffix = []\<rparr>"

text \<open>
  \<open>--lower --digits\<close> with an exclusion that leaves the pool \<open>0ab\<close>, three
  characters without repetition, one from each class, two passwords, decorated.
\<close>

definition example_args :: args where
  "example_args =
     \<lparr>lower = True, upper = False, digits = True, symbols = False, symbols_set = None,
      exclude = ''cdefghijklmnopqrstuvwxyz123456789'', no_ambiguous = False,
      url_safe = False, length_arg = 3, count_arg = 2,
      require_classes = True, no_repeat = True, prefix = ''<'', suffix = ''>''\<rparr>"

text \<open>The same pool with repeats allowed and no class requirement.\<close>

definition repeat_args :: args where
  "repeat_args = example_args\<lparr>require_classes := False, no_repeat := False\<rparr>"

text \<open>\<open>--url-safe --require-classes\<close> with the other class flags set as well.\<close>

definition url_args :: args where
  "url_args =
     \<lparr>lower = True, upper = False, digits = False, symbols = True, symbols_set = Some ''#'',
      exclude = [], no_ambiguous = True, url_safe = True, length_arg = 10, count_arg = 1,
      require_classes = True, no_repeat = False, prefix = [], suffix = []\<rparr>"

text \<open>\<open>--symbols --symbols-set abc --require-classes\<close>.\<close>

definition override_args :: args where
  "override_args =
     \<lparr>lower = False, upper = False, digits = False, symbols = True,
      symbols_set = Some ''abc'', exclude = [], no_ambiguous = False, url_safe = False,
      length_arg = 3, count_arg = 1, require_classes = True, no_repeat = False,
      prefix = [], suffix = []\<rparr>"

text \<open>Two tapes for the random source.\<close>

definition counting_tape :: rng where
  "counting_tape = (\<lambda>k. k)"

definition zero_tape :: rng where
  "zero_tape = (\<lambda>k. 0)"

section \<open>Auxiliary lemmas\<close>

subsection \<open>Random draws and the shuffle\<close>

text \<open>The shuffle rearranges its list: the multiset of elements is unchanged.\<close>

lemma randbelow_less: "0 < n \<Longrightarrow> fst (randbelow n r) < n"
  by (simp add: randbelow_def)

lemma choice_Inr_iff: "(\<exists>c r'. choice s r = Inr (c, r')) \<longleftrightarrow> s \<noteq> []"
  by (simp add: choice_def randbelow_def)

lemma choice_member: "choice s r = Inr (c, r') \<Longrightarrow> c \<in> set s"
  by (auto simp: choice_def randbelow_def split: if_splits)

lemma choice_Inl: "choice s r = Inl e \<Longrightarrow> s = [] \<and> e = IndexError"
  by (auto simp: choice_def randbelow_def split: if_splits)

lemma shuffle_from_mset:
  "i < length lst \<Longrightarrow> mset (fst (shuffle_from i lst r)) = mset lst"
proof (induction i arbitrary: lst r)
  case 0
  then show ?case by simp
next
  case (Suc i)
  define j where "j = fst (randbelow (Suc i + 1) r)"
  define r' where "r' = snd (randbelow (Suc i + 1) r)"
  have j: "j < length lst"
    using Suc.prems randbelow_less [of "Suc i + 1" r] by (simp add: j_def)
  let ?lst' = "lst[Suc i := lst ! j, j := lst ! Suc i]"
  have "mset ?lst' = mset lst"
    using Suc.prems j by (simp add: mset_swap)
  moreover have "i < length ?lst'"
    using Suc.prems by simp
  ultimately have "mset (fst (shuffle_from i ?lst' r')) = mset lst"
    using Suc.IH [of ?lst' r'] by simp
  then show ?case
    by (simp add: j_def r'_def case_prod_unfold Let_def)
qed

lemma secure_shuffle_mset: "mset (fst (secure_shuffle lst r)) = mset lst"
proof (cases lst)
  case Nil
  then show ?thesis by (simp add: secure_shuffle_def)
next
  case (Cons x xs)
  then show ?thesis by (simp add: secure_shuffle_def shuffle_from_mset)
qed

lemma secure_shuffle_set: "set (fst (secure_shuffle lst r)) = set lst"
  using secure_shuffle_mset [of lst r] by (metis set_mset_mset)

lemma secure_shuffle_length: "length (fst (secure_shuffle lst r)) = length lst"
  using secure_shuffle_mset [of lst r] by (metis size_mset)

lemma secure_shuffle_distinct: "distinct (fst (secure_shuffle lst r)) = distinct lst"
  using secure_shuffle_mset [of lst r] by (metis mset_eq_imp_distinct_iff)

subsection \<open>Class slices\<close>

lemma core_of_assembled [simp]: "core_of a (prefix a @ core @ suffix a) = core"
  by (simp add: core_of_def)

lemma build_pool_map_cases:
  "build_pool_map pool n = Some s \<Longrightarrow>
     (n = ''lower'' \<and> s = sorted_list_of_set (set pool \<inter> set ascii_lowercase)) \<or>
     (n = ''upper'' \<and> s = sorted_list_of_set (set pool \<inter> set ascii_uppercase)) \<or>
     (n = ''digits'' \<and> s = sorted_list_of_set (set pool \<inter> set digits_chars)) \<or>
     (n = ''symbols'' \<and> s = sorted_list_of_set (set pool \<inter> set punctuation))"
  by (auto simp: build_pool_map_def split: if_splits)

lemma build_pool_map_subset: "build_pool_map pool n = Some s \<Longrightarrow> set s \<subseteq> set pool"
  by (drule build_pool_map_cases) auto

lemma build_pool_map_dom: "dom (build_pool_map pool) = set standard_classes"
  by (auto simp: build_pool_map_def standard_classes_def split: if_splits)

lemma lower_upper_disjoint: "set ascii_lowercase \<inter> set ascii_uppercase = {}"
  by (simp add: ascii_lowercase_def ascii_uppercase_def)

lemma lower_digits_disjoint: "set ascii_lowercase \<inter> set digits_chars = {}"
  by (simp add: ascii_lowercase_def digits_chars_def)

lemma lower_punct_disjoint: "set ascii_lowercase \<inter> set punctuation = {}"
  by (simp add: ascii_lowercase_def punctuation_def)

lemma upper_digits_disjoint: "set ascii_uppercase \<inter> set digits_chars = {}"
  by (simp add: ascii_uppercase_def digits_chars_def)

lemma upper_punct_disjoint: "set ascii_uppercase \<inter> set punctuation = {}"
  by (simp add: ascii_uppercase_def punctuation_def)

lemma digits_punct_disjoint: "set digits_chars \<inter> set punctuation = {}"
  by (simp add: digits_chars_def punctuation_def)

lemmas class_sets_disjoint =
  lower_upper_disjoint lower_digits_disjoint lower_punct_disjoint
  upper_digits_disjoint upper_punct_disjoint digits_punct_disjoint

lemma build_pool_map_disjoint:
  assumes "build_pool_map pool n = Some s" "build_pool_map pool m = Some t" "n \<noteq> m"
  shows "set s \<inter> set t = {}"
  using build_pool_map_cases [OF assms(1)] build_pool_map_cases [OF assms(2)] assms(3)
    class_sets_disjoint
  by (elim disjE conjE; simp; blast)

subsection \<open>Seeding and filling\<close>

lemma pick_from_each_class_sound:
  "pick_from_each_class names pm r = Inr (picks, r') \<Longrightarrow>
     list_all2 (\<lambda>n c. \<exists>s. pm n = Some s \<and> c \<in> set s)
       [n \<leftarrow> names. n \<noteq> ''url_safe''] picks"
proof (induction names arbitrary: r picks)
  case Nil
  then show ?case by simp
next
  case (Cons n names)
  show ?case
  proof (cases "n = ''url_safe''")
    case True
    with Cons show ?thesis by simp
  next
    case False
    with Cons.prems obtain s c r1 ps where
      s: "pm n = Some s" and c: "choice s r = Inr (c, r1)" and
      ps: "pick_from_each_class names pm r1 = Inr (ps, r')" and picks: "picks = c # ps"
      by (auto split: option.splits sum.splits)
    from Cons.IH [OF ps] s choice_member [OF c] False picks show ?thesis by simp
  qed
qed

lemma pick_from_each_class_total:
  assumes "\<forall>n \<in> set names. n \<noteq> ''url_safe'' \<longrightarrow> (\<exists>s. pm n = Some s \<and> s \<noteq> [])"
  shows "\<exists>picks r'. pick_from_each_class names pm r = Inr (picks, r')"
  using assms
proof (induction names arbitrary: r)
  case Nil
  then show ?case by simp
next
  case (Cons n names)
  show ?case
  proof (cases "n = ''url_safe''")
    case True
    with Cons show ?thesis by simp
  next
    case False
    with Cons.prems obtain s where s: "pm n = Some s" "s \<noteq> []" by auto
    then obtain c r1 where c: "choice s r = Inr (c, r1)"
      using choice_Inr_iff [of s r] by blast
    from Cons.IH [of r1] Cons.prems obtain ps r' where
      "pick_from_each_class names pm r1 = Inr (ps, r')" by auto
    with False s c show ?thesis by simp
  qed
qed

lemma picks_distinct:
  assumes "list_all2 (\<lambda>n c. \<exists>s. build_pool_map pool n = Some s \<and> c \<in> set s) names picks"
    and "distinct names"
  shows "distinct picks"
  using assms
proof (induction names picks rule: list_all2_induct)
  case Nil
  then show ?case by simp
next
  case (Cons n names c picks)
  have "c \<notin> set picks"
  proof
    assume "c \<in> set picks"
    then obtain k where k: "k < length picks" "picks ! k = c"
      by (auto simp: in_set_conv_nth)
    with Cons.hyps(2) obtain t where t: "build_pool_map pool (names ! k) = Some t" "c \<in> set t"
      by (auto simp: list_all2_conv_all_nth)
    from Cons.hyps(1) obtain s where s: "build_pool_map pool n = Some s" "c \<in> set s" by auto
    have "names ! k \<in> set names"
      using k Cons.hyps(2) by (auto simp: list_all2_lengthD)
    with Cons.prems have "n \<noteq> names ! k" by auto
    from build_pool_map_disjoint [OF s(1) t(1) this] s(2) t(2) show False by auto
  qed
  with Cons show ?case by simp
qed

lemma picks_in_pool:
  assumes "list_all2 (\<lambda>n c. \<exists>s. build_pool_map pool n = Some s \<and> c \<in> set s) names picks"
  shows "set picks \<subseteq> set pool"
  using assms
  by (induction names picks rule: list_all2_induct) (auto dest: build_pool_map_subset)

lemma fill_repeat_sound:
  "fill_repeat n pool r = Inr (cs, r') \<Longrightarrow> length cs = n \<and> set cs \<subseteq> set pool"
proof (induction n arbitrary: r cs)
  case 0
  then show ?case by simp
next
  case (Suc n)
  then obtain c r1 cs' where c: "choice pool r = Inr (c, r1)"
    and cs': "fill_repeat n pool r1 = Inr (cs', r')" and cs: "cs = c # cs'"
    by (auto split: sum.splits)
  from Suc.IH [OF cs'] choice_member [OF c] cs show ?case by simp
qed

lemma fill_repeat_total:
  "pool \<noteq> [] \<Longrightarrow> \<exists>cs r'. fill_repeat n pool r = Inr (cs, r')"
proof (induction n arbitrary: r)
  case 0
  then show ?case by simp
next
  case (Suc n)
  then obtain c r1 where c: "choice pool r = Inr (c, r1)"
    using choice_Inr_iff [of pool r] by blast
  from Suc.IH [OF Suc.prems, of r1] obtain cs r' where "fill_repeat n pool r1 = Inr (cs, r')"
    by blast
  with c show ?case by simp
qed

lemma fill_repeat_error: "fill_repeat n pool r = Inl e \<Longrightarrow> e = IndexError \<and> pool = []"
proof (induction n arbitrary: r)
  case 0
  then show ?case by simp
next
  case (Suc n)
  then show ?case
    by (auto split: sum.splits dest: choice_Inl)
qed

lemma fill_chars_sound:
  assumes "fill_chars pool a chars remaining r = Inr (extra, r')"
  shows "length extra = remaining \<and> set extra \<subseteq> set pool \<and>
         (no_repeat a \<longrightarrow> set extra \<inter> set chars = {} \<and> (distinct pool \<longrightarrow> distinct extra))"
proof (cases "no_repeat a")
  case False
  with assms fill_repeat_sound [of remaining pool r extra r'] show ?thesis
    by (simp add: fill_chars_def)
next
  case True
  let ?av = "[c \<leftarrow> pool. c \<notin> set chars]"
  let ?sh = "fst (secure_shuffle ?av r)"
  from assms True have len: "\<not> length ?sh < remaining" and extra: "extra = take remaining ?sh"
    by (auto simp: fill_chars_def Let_def case_prod_unfold split: if_splits)
  have "set extra \<subseteq> set ?av"
    using extra set_take_subset [of remaining ?sh] by (simp add: secure_shuffle_set)
  moreover have "distinct pool \<longrightarrow> distinct extra"
    using extra by (simp add: secure_shuffle_distinct)
  ultimately show ?thesis using len extra True by auto
qed

subsection \<open>What validation guarantees\<close>

lemma validated_length: "validated pool cn a \<Longrightarrow> 1 \<le> length_arg a"
  by (auto simp: validated_def ensure_requirements_def split: if_splits)

lemma validated_no_repeat:
  "validated pool cn a \<Longrightarrow> no_repeat a \<Longrightarrow> length_arg a \<le> int (length pool)"
  by (auto simp: validated_def ensure_requirements_def split: if_splits)

lemma validated_classes:
  assumes "validated pool cn a" "require_classes a" "''url_safe'' \<notin> set cn"
  shows "(\<forall>n \<in> set cn. \<exists>s. build_pool_map pool n = Some s \<and> s \<noteq> []) \<and>
         int (length cn) \<le> length_arg a"
proof -
  from assms have m: "[n \<leftarrow> cn. (case build_pool_map pool n of None \<Rightarrow> True | Some s \<Rightarrow> s = [])] = []"
    and l: "\<not> length_arg a < int (length cn)"
    by (auto simp: validated_def ensure_requirements_def Let_def split: if_splits)
  from m have "\<forall>n \<in> set cn. \<exists>s. build_pool_map pool n = Some s \<and> s \<noteq> []"
    by (auto simp: filter_empty_conv split: option.splits)
  with l show ?thesis by simp
qed

lemma active_classes_filter:
  "active_classes_ok cn \<Longrightarrow>
     (cn = [''url_safe''] \<and> [n \<leftarrow> cn. n \<noteq> ''url_safe''] = []) \<or>
     (''url_safe'' \<notin> set cn \<and> distinct cn \<and> [n \<leftarrow> cn. n \<noteq> ''url_safe''] = cn)"
proof -
  assume ok: "active_classes_ok cn"
  show ?thesis
  proof (cases "cn = [''url_safe'']")
    case True
    then show ?thesis by simp
  next
    case False
    with ok have d: "distinct cn" and s: "set cn \<subseteq> set standard_classes"
      by (auto simp: active_classes_ok_def)
    from s have "''url_safe'' \<notin> set cn"
      by (auto simp: standard_classes_def)
    moreover from this have "[n \<leftarrow> cn. n \<noteq> ''url_safe''] = cn"
      by (induction cn) auto
    ultimately show ?thesis using d by simp
  qed
qed

text \<open>What the seeding step delivers on a validated input.\<close>

lemma seed_chars_sound:
  assumes ok: "active_classes_ok cn" and v: "validated pool cn a"
    and s: "seed_chars cn (build_pool_map pool) a r = Inr (picks, r1)"
  shows "int (length picks) \<le> length_arg a \<and> distinct picks \<and> set picks \<subseteq> set pool"
proof (cases "require_classes a \<and> \<not> url_safe a")
  case False
  with s have "picks = []" by (auto simp: seed_chars_def)
  with validated_length [OF v] show ?thesis by simp
next
  case True
  with s have p: "pick_from_each_class cn (build_pool_map pool) r = Inr (picks, r1)"
    by (simp add: seed_chars_def)
  note la = pick_from_each_class_sound [OF p]
  from active_classes_filter [OF ok] show ?thesis
  proof
    assume "cn = [''url_safe''] \<and> [n \<leftarrow> cn. n \<noteq> ''url_safe''] = []"
    with la have "picks = []" by simp
    with validated_length [OF v] show ?thesis by simp
  next
    assume c: "''url_safe'' \<notin> set cn \<and> distinct cn \<and> [n \<leftarrow> cn. n \<noteq> ''url_safe''] = cn"
    with la have la': "list_all2 (\<lambda>n c. \<exists>s. build_pool_map pool n = Some s \<and> c \<in> set s) cn picks"
      by simp
    then have "length picks = length cn" by (simp add: list_all2_lengthD)
    moreover from validated_classes [OF v] True c have "int (length cn) \<le> length_arg a" by simp
    ultimately show ?thesis
      using picks_distinct [OF la'] picks_in_pool [OF la'] c by simp
  qed
qed

lemma seed_chars_total:
  assumes ok: "active_classes_ok cn" and v: "validated pool cn a"
  shows "\<exists>picks r1. seed_chars cn (build_pool_map pool) a r = Inr (picks, r1)"
proof (cases "require_classes a \<and> \<not> url_safe a")
  case False
  then show ?thesis by (auto simp: seed_chars_def)
next
  case True
  have "\<forall>n \<in> set cn. n \<noteq> ''url_safe'' \<longrightarrow> (\<exists>s. build_pool_map pool n = Some s \<and> s \<noteq> [])"
    using active_classes_filter [OF ok] validated_classes [OF v] True by auto
  from pick_from_each_class_total [OF this] True show ?thesis
    by (simp add: seed_chars_def)
qed

lemma available_count:
  assumes "distinct pool" "distinct chars" "set chars \<subseteq> set pool"
  shows "length [c \<leftarrow> pool. c \<notin> set chars] = length pool - length chars"
proof -
  have "distinct [c \<leftarrow> pool. c \<notin> set chars]"
    using assms(1) by simp
  then have "length [c \<leftarrow> pool. c \<notin> set chars] = card (set [c \<leftarrow> pool. c \<notin> set chars])"
    by (rule distinct_card [symmetric])
  also have "set [c \<leftarrow> pool. c \<notin> set chars] = set pool - set chars" by auto
  also have "card (set pool - set chars) = card (set pool) - card (set chars)"
    using assms(3) by (simp add: card_Diff_subset)
  finally show ?thesis using assms(1,2) by (simp add: distinct_card)
qed

lemma fill_chars_total:
  assumes "distinct pool" "distinct chars" "set chars \<subseteq> set pool"
    and "no_repeat a \<longrightarrow> remaining \<le> length pool - length chars"
    and "\<not> no_repeat a \<longrightarrow> pool \<noteq> []"
  shows "\<exists>extra r'. fill_chars pool a chars remaining r = Inr (extra, r')"
proof (cases "no_repeat a")
  case False
  with assms(5) fill_repeat_total [of pool remaining r] show ?thesis
    by (simp add: fill_chars_def)
next
  case True
  with assms(4) available_count [OF assms(1-3)] show ?thesis
    by (simp add: fill_chars_def Let_def case_prod_unfold secure_shuffle_length)
qed

lemma fill_chars_error:
  assumes "distinct pool" "distinct chars" "set chars \<subseteq> set pool"
    and "no_repeat a \<longrightarrow> remaining \<le> length pool - length chars"
    and "fill_chars pool a chars remaining r = Inl e"
  shows "e = IndexError \<and> pool = [] \<and> \<not> no_repeat a"
proof (cases "no_repeat a")
  case False
  with assms(5) fill_repeat_error [of remaining pool r e] show ?thesis
    by (simp add: fill_chars_def)
next
  case True
  with assms(4,5) available_count [OF assms(1-3)] show ?thesis
    by (simp add: fill_chars_def Let_def case_prod_unfold secure_shuffle_length)
qed

subsection \<open>One password, and the loop over \<open>count\<close>\<close>

lemma floor_at_zero: "nat (if x < 0 then 0 else x) = nat x"
  by simp

lemma generate_core_alt:
  "generate_core pool cn pm a r =
     (case seed_chars cn pm a r of
        Inl e \<Rightarrow> Inl e
      | Inr (chars, r1) \<Rightarrow>
          (case fill_chars pool a chars (nat (length_arg a - int (length chars))) r1 of
             Inl e \<Rightarrow> Inl e
           | Inr (extra, r2) \<Rightarrow> Inr (secure_shuffle (chars @ extra) r2)))"
  unfolding generate_core_def Let_def floor_at_zero ..

lemma generate_core_parts:
  assumes "generate_core pool cn pm a r = Inr (core, r')"
  shows "\<exists>picks r1 extra r2.
           seed_chars cn pm a r = Inr (picks, r1) \<and>
           fill_chars pool a picks (nat (length_arg a - int (length picks))) r1 = Inr (extra, r2) \<and>
           mset core = mset (picks @ extra)"
proof -
  from assms obtain picks r1 where s: "seed_chars cn pm a r = Inr (picks, r1)"
    by (auto simp: generate_core_def split: sum.splits)
  let ?rem = "nat (length_arg a - int (length picks))"
  from assms s obtain extra r2 where f: "fill_chars pool a picks ?rem r1 = Inr (extra, r2)"
    and c: "(core, r') = secure_shuffle (picks @ extra) r2"
    by (auto simp: generate_core_alt split: sum.splits)
  from c have "core = fst (secure_shuffle (picks @ extra) r2)"
    by (metis fst_conv)
  then have "mset core = mset (picks @ extra)"
    by (simp only: secure_shuffle_mset)
  with s f show ?thesis by blast
qed

lemma generate_core_sound:
  assumes ok: "active_classes_ok cn" and v: "validated pool cn a"
    and g: "generate_core pool cn (build_pool_map pool) a r = Inr (core, r')"
  shows "int (length core) = length_arg a \<and> set core \<subseteq> set pool \<and>
         (no_repeat a \<and> distinct pool \<longrightarrow> distinct core)"
proof -
  from generate_core_parts [OF g] obtain picks r1 extra r2 where
    s: "seed_chars cn (build_pool_map pool) a r = Inr (picks, r1)" and
    f: "fill_chars pool a picks (nat (length_arg a - int (length picks))) r1 = Inr (extra, r2)" and
    m: "mset core = mset (picks @ extra)"
    by blast
  note sp = seed_chars_sound [OF ok v s]
  note fp = fill_chars_sound [OF f]
  from m have len: "length core = length picks + length extra"
    by (metis size_mset length_append)
  from m have st: "set core = set picks \<union> set extra"
    by (metis set_mset_mset set_append)
  from m have di: "distinct core = distinct (picks @ extra)"
    by (rule mset_eq_imp_distinct_iff)
  have "int (length core) = length_arg a"
    using len sp fp by simp
  moreover have "set core \<subseteq> set pool"
    using st sp fp by simp
  moreover have "no_repeat a \<and> distinct pool \<longrightarrow> distinct core"
    using di sp fp by auto
  ultimately show ?thesis by simp
qed

lemma generate_core_total:
  assumes ok: "active_classes_ok cn" and v: "validated pool cn a"
    and d: "distinct pool" and ne: "pool \<noteq> []"
  shows "\<exists>core r'. generate_core pool cn (build_pool_map pool) a r = Inr (core, r')"
proof -
  from seed_chars_total [OF ok v] obtain picks r1 where
    s: "seed_chars cn (build_pool_map pool) a r = Inr (picks, r1)" by blast
  note sp = seed_chars_sound [OF ok v s]
  have "no_repeat a \<longrightarrow> nat (length_arg a - int (length picks)) \<le> length pool - length picks"
    using validated_no_repeat [OF v] by auto
  with fill_chars_total [of pool picks a "nat (length_arg a - int (length picks))" r1] sp d ne
  obtain extra r2 where
    "fill_chars pool a picks (nat (length_arg a - int (length picks))) r1 = Inr (extra, r2)"
    by auto
  with s show ?thesis
    by (auto simp: generate_core_alt intro: prod.exhaust)
qed

lemma generate_core_error:
  assumes ok: "active_classes_ok cn" and v: "validated pool cn a"
    and d: "distinct pool"
    and g: "generate_core pool cn (build_pool_map pool) a r = Inl e"
  shows "e = IndexError \<and> pool = [] \<and> \<not> no_repeat a"
proof -
  from seed_chars_total [OF ok v] obtain picks r1 where
    s: "seed_chars cn (build_pool_map pool) a r = Inr (picks, r1)" by blast
  note sp = seed_chars_sound [OF ok v s]
  have b: "no_repeat a \<longrightarrow> nat (length_arg a - int (length picks)) \<le> length pool - length picks"
    using validated_no_repeat [OF v] by auto
  from g s have "fill_chars pool a picks (nat (length_arg a - int (length picks))) r1 = Inl e"
    by (auto simp: generate_core_alt split: sum.splits prod.splits)
  from fill_chars_error [OF d _ _ b this] sp show ?thesis by simp
qed

lemma generate_loop_sound:
  "generate_loop n pool cn pm a r acc = Inr pwds \<Longrightarrow>
     \<exists>new. pwds = acc @ new \<and> length new = n \<and>
       (\<forall>p \<in> set new. \<exists>core r1 r2.
           generate_core pool cn pm a r1 = Inr (core, r2) \<and> p = prefix a @ core @ suffix a)"
proof (induction n arbitrary: r acc)
  case 0
  then show ?case by simp
next
  case (Suc n)
  from Suc.prems obtain core r' where
    c: "generate_core pool cn pm a r = Inr (core, r')" and
    l: "generate_loop n pool cn pm a r' (acc @ [prefix a @ core @ suffix a]) = Inr pwds"
    by (auto simp: Let_def split: sum.splits)
  from Suc.IH [OF l] obtain new where
    new: "pwds = (acc @ [prefix a @ core @ suffix a]) @ new" "length new = n"
      "\<forall>p \<in> set new. \<exists>core r1 r2.
           generate_core pool cn pm a r1 = Inr (core, r2) \<and> p = prefix a @ core @ suffix a"
    by blast
  let ?new = "(prefix a @ core @ suffix a) # new"
  have "pwds = acc @ ?new" using new(1) by simp
  moreover have "length ?new = Suc n" using new(2) by simp
  moreover have "\<forall>p \<in> set ?new. \<exists>core r1 r2.
           generate_core pool cn pm a r1 = Inr (core, r2) \<and> p = prefix a @ core @ suffix a"
    using new(3) c by auto
  ultimately show ?case by blast
qed

lemma generate_loop_total:
  assumes "\<And>r. \<exists>core r'. generate_core pool cn pm a r = Inr (core, r')"
  shows "\<exists>pwds. generate_loop n pool cn pm a r acc = Inr pwds"
proof (induction n arbitrary: r acc)
  case 0
  then show ?case by simp
next
  case (Suc n)
  from assms [of r] obtain core r' where "generate_core pool cn pm a r = Inr (core, r')"
    by blast
  with Suc.IH [of r' "acc @ [prefix a @ core @ suffix a]"] show ?case
    by (simp add: Let_def)
qed

lemma generate_loop_error:
  "generate_loop n pool cn pm a r acc = Inl e \<Longrightarrow> \<exists>r1. generate_core pool cn pm a r1 = Inl e"
proof (induction n arbitrary: r acc)
  case 0
  then show ?case by simp
next
  case (Suc n)
  then show ?case
    by (auto simp: Let_def split: sum.splits)
qed

lemma generate_passwords_sound:
  assumes "generate_passwords pool cn a r = Inr pwds"
  shows "length pwds = nat (count_arg a) \<and>
         (\<forall>p \<in> set pwds. \<exists>core r1 r2.
            generate_core pool cn (build_pool_map pool) a r1 = Inr (core, r2) \<and>
            p = prefix a @ core @ suffix a)"
  using generate_loop_sound [of "nat (count_arg a)" pool cn "build_pool_map pool" a r "[]" pwds]
    assms
  by (auto simp: generate_passwords_def)

subsection \<open>The result of \<open>build_pool\<close>\<close>

lemma build_pool_eq:
  "build_pool a =
     (if fst (selected_parts a) = [] then Inl EmptySelection
      else if filtered_pool a (fst (selected_parts a)) = {} then Inl EmptyPool
      else Inr (sorted_list_of_set (filtered_pool a (fst (selected_parts a))),
                snd (selected_parts a)))"
proof (cases "url_safe a")
  case True
  then show ?thesis
    by (simp add: build_pool_def selected_parts_def filtered_pool_def Let_def)
next
  case False
  show ?thesis
  proof (cases "lower a \<or> upper a \<or> digits a \<or> symbols a")
    case True
    with False show ?thesis
      by (simp add: build_pool_def selected_parts_def filtered_pool_def Let_def
          del: set_concat cong: if_cong)
  next
    case False
    with \<open>\<not> url_safe a\<close> show ?thesis
      by (simp add: build_pool_def selected_parts_def filtered_pool_def Let_def
          del: set_concat cong: if_cong)
  qed
qed


lemma selected_parts_names:
  "fst (selected_parts a) \<noteq> [] \<and> snd (selected_parts a) \<noteq> [] \<and>
   active_classes_ok (snd (selected_parts a)) \<and>
   (url_safe a \<longleftrightarrow> snd (selected_parts a) = [''url_safe''])"
  by (simp add: selected_parts_def Let_def active_classes_ok_def standard_classes_def)

lemma filtered_pool_whitespace: "filtered_pool a parts \<inter> set whitespace = {}"
  by (auto simp: filtered_pool_def Let_def)

lemma build_pool_never_EmptySelection: "build_pool a \<noteq> Inl EmptySelection"
  using selected_parts_names [of a] by (simp add: build_pool_eq)

lemma build_pool_Inr:
  assumes "build_pool a = Inr (pool, cn)"
  shows "pool = sorted_list_of_set (filtered_pool a (fst (selected_parts a))) \<and>
         filtered_pool a (fst (selected_parts a)) \<noteq> {} \<and> cn = snd (selected_parts a)"
  using assms selected_parts_names [of a] by (simp add: build_pool_eq split: if_splits)

lemma build_pool_classes_ok:
  assumes "build_pool a = Inr (pool, cn)"
  shows "active_classes_ok cn \<and> (url_safe a \<longleftrightarrow> cn = [''url_safe''])"
  using build_pool_Inr [OF assms] selected_parts_names [of a] by simp


lemma sorted_url_safe_constant:
  "sorted_list_of_set (set URL_SAFE_UNRESERVED - set whitespace) = url_safe_sorted"
  by code_simp

lemma url_safe_sorted_facts:
  "length url_safe_sorted = 66 \<and>
   set url_safe_sorted =
     set ascii_uppercase \<union> set ascii_lowercase \<union> set digits_chars \<union> set ''-._~''"
  by code_simp


text \<open>Without an override the helper of the source is the helper of the specification.\<close>

lemma build_pool_map_no_override: "build_pool_map pool = class_membership_spec None pool"
  by (simp add: build_pool_map_def class_membership_spec_def)

lemma build_pool_map_standard:
  "n \<in> set standard_classes \<Longrightarrow> \<exists>s. build_pool_map pool n = Some s"
  using build_pool_map_dom [of pool] by blast

text \<open>
  The path of \<open>main\<close>: a pool and a class list built by \<open>build_pool\<close> and accepted
  by \<open>ensure_requirements\<close> always yield passwords.
\<close>

lemma build_pool_distinct_nonempty:
  assumes "build_pool a = Inr (pool, cn)"
  shows "distinct pool \<and> pool \<noteq> []"
proof -
  note b = build_pool_Inr [OF assms]
  have "set pool = filtered_pool a (fst (selected_parts a))" using b by simp
  with b show ?thesis by auto
qed

lemma main_pipeline_returns:
  assumes "build_pool a = Inr (pool, cn)" and "validated pool cn a"
  shows "\<exists>pwds. generate_passwords pool cn a r = Inr pwds"
proof -
  from build_pool_classes_ok [OF assms(1)] have ok: "active_classes_ok cn" by simp
  from build_pool_distinct_nonempty [OF assms(1)] have d: "distinct pool" and ne: "pool \<noteq> []"
    by simp_all
  show ?thesis
    unfolding generate_passwords_def
    by (rule generate_loop_total) (rule generate_core_total [OF ok assms(2) d ne])
qed

section \<open>Properties of pool construction\<close>

text \<open>
  C4 (as amended).  When \<open>url_safe\<close> is requested and the exclusion string is empty,
  \<open>build_pool\<close> succeeds whatever the other class flags, the symbol override and the
  ambiguity flag are: the pool is the URL-safe constant in sorted order, that is the
  letters \<open>A-Z\<close>, \<open>a-z\<close>, the digits and the four characters \<open>- . _ ~\<close>, which
  are 66 characters (not 64), and the active-class list is the single sentinel
  \<open>url_safe\<close>.  For that class list the seeding step of the generator draws nothing
  and leaves the random source untouched, for every configuration, in particular with
  \<open>require_classes\<close> set.
\<close>

theorem url_safe_pool:
  assumes "url_safe a" and "exclude a = []"
  shows "build_pool a = Inr (url_safe_sorted, [''url_safe'']) \<and>
         length url_safe_sorted = 66 \<and>
         set url_safe_sorted =
           set ascii_uppercase \<union> set ascii_lowercase \<union> set digits_chars \<union> set ''-._~'' \<and>
         seed_chars [''url_safe''] pool_map b r = Inr ([], r)"
proof -
  have p: "selected_parts a = ([URL_SAFE_UNRESERVED], [''url_safe''])"
    using assms(1) by (simp add: selected_parts_def)
  have f: "filtered_pool a [URL_SAFE_UNRESERVED] = set URL_SAFE_UNRESERVED - set whitespace"
    using assms by (simp add: filtered_pool_def)
  have s: "sorted_list_of_set (filtered_pool a [URL_SAFE_UNRESERVED]) = url_safe_sorted"
    unfolding f by (rule sorted_url_safe_constant)
  have "filtered_pool a [URL_SAFE_UNRESERVED] \<noteq> {}"
  proof
    assume "filtered_pool a [URL_SAFE_UNRESERVED] = {}"
    with s have "url_safe_sorted = []" by simp
    then show False by (simp add: url_safe_sorted_def)
  qed
  with p s have "build_pool a = Inr (url_safe_sorted, [''url_safe''])"
    by (simp add: build_pool_eq)
  moreover have "seed_chars [''url_safe''] pool_map b r = Inr ([], r)"
    by (simp add: seed_chars_def)
  ultimately show ?thesis using url_safe_sorted_facts by simp
qed

theorem url_safe_pool_witness:
  "url_safe url_args \<and> exclude url_args = [] \<and> require_classes url_args \<and>
   build_pool url_args = Inr (url_safe_sorted, [''url_safe'']) \<and>
   length url_safe_sorted = 66 \<and>
   seed_chars [''url_safe''] (build_pool_map url_safe_sorted) url_args counting_tape
     = Inr ([], counting_tape)"
proof -
  have h1: "url_safe url_args" by (simp add: url_args_def)
  have h2: "exclude url_args = []" by (simp add: url_args_def)
  have h3: "require_classes url_args" by (simp add: url_args_def)
  from url_safe_pool [OF h1 h2, of "build_pool_map url_safe_sorted" url_args counting_tape]
    h1 h2 h3
  show ?thesis by simp
qed

text \<open>
  The pool of C4 as the claim words it does not exist: with \<open>url_safe\<close> requested and
  nothing excluded the returned pool has 66 characters, so it does not have exactly 64.
\<close>

theorem url_safe_pool_size_counterexample:
  "url_safe url_args \<and> exclude url_args = [] \<and>
   build_pool url_args = Inr (url_safe_sorted, [''url_safe'']) \<and>
   length url_safe_sorted \<noteq> 64"
  by code_simp

text \<open>
  C6 (as amended).  When \<open>url_safe\<close> is off and none of the four class flags is set,
  all four classes default to active: \<open>build_pool\<close> does not fail with
  \<open>EmptySelection\<close>; it either fails with \<open>EmptyPool\<close> (the filters removed every
  character) or succeeds with the active-class list
  \<open>[lower, upper, digits, symbols]\<close>.
\<close>

theorem build_pool_default_classes:
  assumes "\<not> url_safe a" "\<not> lower a" "\<not> upper a" "\<not> digits a" "\<not> symbols a"
  shows "build_pool a \<noteq> Inl EmptySelection \<and>
         (build_pool a = Inl EmptyPool \<or>
          (\<exists>pool. build_pool a = Inr (pool, [''lower'', ''upper'', ''digits'', ''symbols''])))"
proof -
  have "snd (selected_parts a) = [''lower'', ''upper'', ''digits'', ''symbols'']"
    using assms by (simp add: selected_parts_def)
  then show ?thesis
    using selected_parts_names [of a] by (simp add: build_pool_eq)
qed

theorem build_pool_default_classes_witness:
  "\<not> url_safe default_args \<and> \<not> lower default_args \<and> \<not> upper default_args \<and>
   \<not> digits default_args \<and> \<not> symbols default_args \<and>
   build_pool default_args \<noteq> Inl EmptySelection \<and>
   (build_pool default_args = Inl EmptyPool \<or>
    (\<exists>pool. build_pool default_args =
       Inr (pool, [''lower'', ''upper'', ''digits'', ''symbols''])))"
proof -
  have h: "\<not> url_safe default_args" "\<not> lower default_args" "\<not> upper default_args"
    "\<not> digits default_args" "\<not> symbols default_args"
    by (simp_all add: default_args_def)
  from build_pool_default_classes [OF h] h show ?thesis by simp
qed

text \<open>
  The claim C6 as worded fails on the command line without options: no class flag is
  set, \<open>url_safe\<close> is off, and \<open>build_pool\<close> returns the 94 printable characters
  with all four classes active.
\<close>

theorem empty_selection_counterexample:
  "\<not> url_safe default_args \<and> \<not> lower default_args \<and> \<not> upper default_args \<and>
   \<not> digits default_args \<and> \<not> symbols default_args \<and>
   build_pool default_args =
     Inr (sort (ascii_lowercase @ ascii_uppercase @ digits_chars @ punctuation),
          [''lower'', ''upper'', ''digits'', ''symbols'']) \<and>
   build_pool default_args \<noteq> Inl EmptySelection"
  by code_simp

text \<open>
  C7.  Whenever \<open>build_pool\<close> succeeds, the pool it returns is sorted, has no
  duplicate, contains none of the whitespace characters (space, tab, CR, LF) and is not
  empty, and the active-class list is not empty.
\<close>

theorem build_pool_invariants:
  assumes "build_pool a = Inr (pool, class_names)"
  shows "sorted pool \<and> distinct pool \<and> set pool \<inter> set whitespace = {} \<and>
         CHR 0x20 \<notin> set pool \<and> CHR 0x09 \<notin> set pool \<and>
         CHR 0x0D \<notin> set pool \<and> CHR 0x0A \<notin> set pool \<and>
         pool \<noteq> [] \<and> class_names \<noteq> []"
proof -
  let ?S = "filtered_pool a (fst (selected_parts a))"
  note b = build_pool_Inr [OF assms]
  have st: "set pool = ?S" using b by simp
  have "sorted pool" "distinct pool" using b by simp_all
  moreover have ws: "set pool \<inter> set whitespace = {}"
    using st filtered_pool_whitespace [of a "fst (selected_parts a)"] by simp
  moreover from ws have "CHR 0x20 \<notin> set pool \<and> CHR 0x09 \<notin> set pool \<and>
         CHR 0x0D \<notin> set pool \<and> CHR 0x0A \<notin> set pool"
    by (auto simp: whitespace_def)
  moreover have "pool \<noteq> []" using st b by auto
  moreover have "class_names \<noteq> []" using b selected_parts_names [of a] by simp
  ultimately show ?thesis by simp
qed

theorem build_pool_invariants_witness:
  "build_pool example_args = Inr (''0ab'', [''lower'', ''digits'']) \<and>
   sorted ''0ab'' \<and> distinct ''0ab'' \<and> set ''0ab'' \<inter> set whitespace = {} \<and>
   ''0ab'' \<noteq> [] \<and> [''lower'', ''digits''] \<noteq> []"
proof -
  have h: "build_pool example_args = Inr (''0ab'', [''lower'', ''digits''])"
    by code_simp
  from build_pool_invariants [OF h] h show ?thesis by simp
qed

text \<open>
  C5.  The claim asks the class-membership helper to intersect the pool with the
  caller's symbol set when one is given.  \<open>build_pool\<close> builds the pool from the
  override, but \<open>build_pool_map\<close> always intersects with the standard punctuation.
  With \<open>--symbols --symbols-set abc\<close> the pool is \<open>abc\<close>, the helper's slice for
  \<open>symbols\<close> is empty where the claim gives \<open>abc\<close>, and with
  \<open>--require-classes\<close> the validator reports the class as empty.
\<close>

theorem symbols_override_ignored:
  "build_pool override_args = Inr (''abc'', [''symbols'']) \<and>
   build_pool_map ''abc'' ''symbols'' = Some [] \<and>
   class_membership_spec (symbols_set override_args) ''abc'' ''symbols'' = Some ''abc'' \<and>
   ensure_requirements (length_arg override_args) [''symbols'']
      (require_classes override_args) (no_repeat override_args) ''abc''
     = Inl (UnsatisfiableClass [''symbols''])"
  by code_simp


section \<open>Properties of constraint validation\<close>

text \<open>
  When the caller gives no symbol override, the validator of the source is the validator
  of the specification on every active-class list of the data model: same outcome, same
  error, same list of unsatisfiable classes.
\<close>

lemma ensure_requirements_no_override:
  assumes ok: "active_classes_ok class_names"
  shows "ensure_requirements len class_names req no_rep pool
           = validate_spec None len class_names req no_rep pool"
proof -
  have "(''url_safe'' \<notin> set class_names) = (class_names \<noteq> [''url_safe''])"
    using active_classes_filter [OF ok] by auto
  then show ?thesis
    by (simp add: ensure_requirements_def validate_spec_def build_pool_map_no_override Let_def)
qed

text \<open>
  C3.  The claim makes the validator fail with \<open>UnsatisfiableClass\<close> exactly when
  some active class's slice of the pool is empty, and return normally otherwise.  The
  validator of the source takes the slices from \<open>build_pool_map\<close>, which ignores the
  symbol override.  With \<open>--symbols --symbols-set abc --require-classes\<close> and length 3
  the pool is \<open>abc\<close> and the only active class is \<open>symbols\<close>, whose slice is
  \<open>abc\<close>; the length is at least 1 and at least the number of classes, repeats are
  allowed, so the validator of the specification accepts, while \<open>ensure_requirements\<close>
  fails with \<open>UnsatisfiableClass [symbols]\<close>.
\<close>

theorem validator_override_divergence:
  "build_pool override_args = Inr (''abc'', [''symbols'']) \<and>
   class_membership_spec (symbols_set override_args) ''abc'' ''symbols'' = Some ''abc'' \<and>
   validate_spec (symbols_set override_args) (length_arg override_args) [''symbols'']
      (require_classes override_args) (no_repeat override_args) ''abc''
     = Inr () \<and>
   ensure_requirements (length_arg override_args) [''symbols'']
      (require_classes override_args) (no_repeat override_args) ''abc''
     = Inl (UnsatisfiableClass [''symbols''])"
  by code_simp

section \<open>Property of the entropy estimate\<close>

text \<open>
  C9.  \<open>bits_of_entropy pool_size length\<close> is \<open>length * log2 pool_size\<close> when the
  pool size exceeds 1 and the length is positive, and is 0 when the pool size is at
  most 1 or the length is at most 0.
\<close>

theorem bits_of_entropy_spec:
  "(1 < pool_size \<and> 0 < len \<longrightarrow>
      bits_of_entropy pool_size len = real_of_int len * log 2 (real_of_int pool_size)) \<and>
   (pool_size \<le> 1 \<or> len \<le> 0 \<longrightarrow> bits_of_entropy pool_size len = 0)"
  by (simp add: bits_of_entropy_def)

theorem bits_of_entropy_spec_witness:
  "(1::int) < 8 \<and> (0::int) < 5 \<and> bits_of_entropy 8 5 = 15 \<and>
   bits_of_entropy 1 5 = 0 \<and> bits_of_entropy 8 0 = 0"
proof -
  have "log 2 (8::real) = 3"
    using log_pow_cancel [of 2 3] by simp
  then show ?thesis
    using bits_of_entropy_spec [of 8 5] bits_of_entropy_spec [of 1 5]
      bits_of_entropy_spec [of 8 0]
    by simp
qed


section \<open>Properties of generation\<close>

text \<open>
  The theorems of this section hold for every tape of the random source, hence for every
  run of the generator.  Pools and active-class lists are those of the data model: a
  pool has no duplicate and is not empty (\<open>build_pool_distinct_nonempty\<close>), an
  active-class list satisfies \<open>active_classes_ok\<close> (\<open>build_pool_classes_ok\<close>).
\<close>

text \<open>
  C1.  With \<open>no_repeat\<close> set and a validated configuration, every password returned by
  \<open>generate_passwords\<close> is the prefix, a core and the suffix, and the core has exactly
  \<open>length\<close> characters, pairwise distinct, all from the pool.
\<close>

theorem no_repeat_core_distinct:
  assumes "distinct pool" and "active_classes_ok class_names"
    and "validated pool class_names a" and "no_repeat a"
    and "generate_passwords pool class_names a r = Inr pwds" and "pwd \<in> set pwds"
  shows "pwd = prefix a @ core_of a pwd @ suffix a \<and>
         int (length (core_of a pwd)) = length_arg a \<and>
         distinct (core_of a pwd) \<and>
         set (core_of a pwd) \<subseteq> set pool"
proof -
  from generate_passwords_sound [OF assms(5)] assms(6) obtain core r1 r2 where
    g: "generate_core pool class_names (build_pool_map pool) a r1 = Inr (core, r2)" and
    p: "pwd = prefix a @ core @ suffix a"
    by blast
  from generate_core_sound [OF assms(2,3) g] assms(1,4) p show ?thesis by simp
qed

theorem no_repeat_core_distinct_witness:
  "distinct ''0ab'' \<and> active_classes_ok [''lower'', ''digits''] \<and>
   validated ''0ab'' [''lower'', ''digits''] example_args \<and> no_repeat example_args \<and>
   generate_passwords ''0ab'' [''lower'', ''digits''] example_args counting_tape
     = Inr [''<a0b>'', ''<b0a>''] \<and>
   core_of example_args ''<b0a>'' = ''b0a'' \<and>
   int (length ''b0a'') = length_arg example_args \<and> distinct ''b0a'' \<and>
   set ''b0a'' \<subseteq> set ''0ab''"
proof -
  have h1: "distinct ''0ab''" by simp
  have h2: "active_classes_ok [''lower'', ''digits'']"
    by (simp add: active_classes_ok_def standard_classes_def)
  have h3: "validated ''0ab'' [''lower'', ''digits''] example_args" by code_simp
  have h4: "no_repeat example_args" by (simp add: example_args_def)
  have h5: "generate_passwords ''0ab'' [''lower'', ''digits''] example_args counting_tape
     = Inr [''<a0b>'', ''<b0a>'']" by code_simp
  have h6: "''<b0a>'' \<in> set [''<a0b>'', ''<b0a>'']" by simp
  have c: "core_of example_args ''<b0a>'' = ''b0a''"
    by (simp add: core_of_def example_args_def)
  from no_repeat_core_distinct [OF h1 h2 h3 h4 h5 h6] h1 h2 h3 h4 h5 c
  show ?thesis by simp
qed

text \<open>
  C2.  With \<open>require_classes\<close> set and \<open>url_safe\<close> off, every core returned by
  \<open>generate_passwords\<close> contains at least one character of the pool slice of each
  active class: the seeding step draws exactly one character from each active class's
  slice, in the order of the class list, and the core is a rearrangement of these
  characters followed by the filled ones.  (The slice of a class is its entry in
  \<open>build_pool_map\<close>, a part of the pool.)  This holds for every returned core, whether
  or not the configuration was validated.
\<close>

theorem require_classes_core_covers:
  assumes "require_classes a" and "\<not> url_safe a"
    and "generate_passwords pool class_names a r = Inr pwds" and "pwd \<in> set pwds"
  shows "pwd = prefix a @ core_of a pwd @ suffix a \<and>
         (\<exists>picks extra.
            list_all2 (\<lambda>n c. \<exists>s. build_pool_map pool n = Some s \<and> c \<in> set s)
              [n \<leftarrow> class_names. n \<noteq> ''url_safe''] picks \<and>
            mset (core_of a pwd) = mset (picks @ extra)) \<and>
         (\<forall>n \<in> set class_names. n \<noteq> ''url_safe'' \<longrightarrow>
            (\<exists>s. build_pool_map pool n = Some s \<and> set s \<subseteq> set pool \<and>
                 set (core_of a pwd) \<inter> set s \<noteq> {}))"
proof -
  let ?pm = "build_pool_map pool"
  let ?names = "[n \<leftarrow> class_names. n \<noteq> ''url_safe'']"
  from generate_passwords_sound [OF assms(3)] assms(4) obtain core r1 r2 where
    g: "generate_core pool class_names ?pm a r1 = Inr (core, r2)" and
    p: "pwd = prefix a @ core @ suffix a"
    by blast
  from generate_core_parts [OF g] obtain picks r3 extra where
    s: "seed_chars class_names ?pm a r1 = Inr (picks, r3)" and
    m: "mset core = mset (picks @ extra)"
    by blast
  from s assms(1,2) have "pick_from_each_class class_names ?pm r1 = Inr (picks, r3)"
    by (simp add: seed_chars_def)
  from pick_from_each_class_sound [OF this] have
    la: "list_all2 (\<lambda>n c. \<exists>s. ?pm n = Some s \<and> c \<in> set s) ?names picks" .
  from m have st: "set core = set picks \<union> set extra"
    by (metis set_mset_mset set_append)
  have cover: "\<exists>s. ?pm n = Some s \<and> set s \<subseteq> set pool \<and> set core \<inter> set s \<noteq> {}"
    if n: "n \<in> set class_names" "n \<noteq> ''url_safe''" for n
  proof -
    from n have "n \<in> set ?names" by simp
    then obtain k where k: "k < length ?names" "?names ! k = n"
      by (metis in_set_conv_nth)
    with la obtain s where s: "?pm n = Some s" "picks ! k \<in> set s"
      by (auto simp: list_all2_conv_all_nth)
    from la k have "picks ! k \<in> set picks"
      by (simp add: list_all2_lengthD)
    with st s build_pool_map_subset [OF s(1)] show ?thesis by auto
  qed
  from p la m cover show ?thesis by auto
qed

theorem require_classes_core_covers_witness:
  "require_classes example_args \<and> \<not> url_safe example_args \<and>
   generate_passwords ''0ab'' [''lower'', ''digits''] example_args counting_tape
     = Inr [''<a0b>'', ''<b0a>''] \<and>
   core_of example_args ''<a0b>'' = ''a0b'' \<and>
   build_pool_map ''0ab'' ''lower'' = Some ''ab'' \<and>
   build_pool_map ''0ab'' ''digits'' = Some ''0'' \<and>
   set ''a0b'' \<inter> set ''ab'' \<noteq> {} \<and> set ''a0b'' \<inter> set ''0'' \<noteq> {}"
proof -
  have h1: "require_classes example_args" "\<not> url_safe example_args"
    by (simp_all add: example_args_def)
  have h3: "generate_passwords ''0ab'' [''lower'', ''digits''] example_args counting_tape
     = Inr [''<a0b>'', ''<b0a>'']" by code_simp
  have h4: "''<a0b>'' \<in> set [''<a0b>'', ''<b0a>'']" by simp
  have c: "core_of example_args ''<a0b>'' = ''a0b''"
    by (simp add: core_of_def example_args_def)
  have m: "build_pool_map ''0ab'' ''lower'' = Some ''ab''"
    "build_pool_map ''0ab'' ''digits'' = Some ''0''"
    by code_simp+
  from require_classes_core_covers [OF h1 h3 h4] have
    "\<forall>n \<in> set [''lower'', ''digits'']. n \<noteq> ''url_safe'' \<longrightarrow>
        (\<exists>s. build_pool_map ''0ab'' n = Some s \<and> set s \<subseteq> set ''0ab'' \<and>
             set (core_of example_args ''<a0b>'') \<inter> set s \<noteq> {})"
    by blast
  with c m have "set ''a0b'' \<inter> set ''ab'' \<noteq> {} \<and> set ''a0b'' \<inter> set ''0'' \<noteq> {}"
    by simp
  with h1 h3 c m show ?thesis by simp
qed

text \<open>
  C8.  For a validated configuration on which \<open>generate_passwords\<close> succeeds, the
  result has \<open>count\<close> passwords (none when \<open>count\<close> is negative), and every password
  is the prefix, a core and the suffix, where the core has exactly \<open>length\<close>
  characters and each of them belongs to the pool.  The prefix and the suffix are the
  strings of the configuration, whatever they contain.  Nothing is assumed about
  \<open>no_repeat\<close>.
\<close>

theorem generate_passwords_shape:
  assumes "active_classes_ok class_names" and "validated pool class_names a"
    and "generate_passwords pool class_names a r = Inr pwds"
  shows "length pwds = nat (count_arg a) \<and>
         (0 \<le> count_arg a \<longrightarrow> int (length pwds) = count_arg a) \<and>
         (\<forall>pwd \<in> set pwds.
            pwd = prefix a @ core_of a pwd @ suffix a \<and>
            int (length (core_of a pwd)) = length_arg a \<and>
            set (core_of a pwd) \<subseteq> set pool)"
proof -
  note s = generate_passwords_sound [OF assms(3)]
  have "pwd = prefix a @ core_of a pwd @ suffix a \<and>
        int (length (core_of a pwd)) = length_arg a \<and> set (core_of a pwd) \<subseteq> set pool"
    if "pwd \<in> set pwds" for pwd
  proof -
    from s that obtain core r1 r2 where
      g: "generate_core pool class_names (build_pool_map pool) a r1 = Inr (core, r2)" and
      p: "pwd = prefix a @ core @ suffix a"
      by blast
    from generate_core_sound [OF assms(1,2) g] p show ?thesis by simp
  qed
  with s show ?thesis by simp
qed

theorem generate_passwords_shape_witness:
  "active_classes_ok [''lower'', ''digits''] \<and>
   validated ''0ab'' [''lower'', ''digits''] repeat_args \<and> \<not> no_repeat repeat_args \<and>
   generate_passwords ''0ab'' [''lower'', ''digits''] repeat_args zero_tape
     = Inr [''<000>'', ''<000>''] \<and>
   count_arg repeat_args = 2 \<and>
   core_of repeat_args ''<000>'' = ''000'' \<and>
   int (length ''000'') = length_arg repeat_args \<and> set ''000'' \<subseteq> set ''0ab'' \<and>
   CHR ''<'' \<notin> set ''0ab''"
proof -
  have h1: "active_classes_ok [''lower'', ''digits'']"
    by (simp add: active_classes_ok_def standard_classes_def)
  have h2: "validated ''0ab'' [''lower'', ''digits''] repeat_args" by code_simp
  have h3: "generate_passwords ''0ab'' [''lower'', ''digits''] repeat_args zero_tape
     = Inr [''<000>'', ''<000>'']" by code_simp
  have c: "core_of repeat_args ''<000>'' = ''000''"
    by (simp add: core_of_def repeat_args_def example_args_def)
  have n: "\<not> no_repeat repeat_args" "count_arg repeat_args = 2"
    by (simp_all add: repeat_args_def example_args_def)
  from generate_passwords_shape [OF h1 h2 h3] h1 h2 h3 c n show ?thesis by simp
qed

text \<open>
  C10.  On a configuration accepted by \<open>ensure_requirements\<close> the generator never
  reaches \<open>InsufficientUniqueChars\<close> and never draws from an empty class slice:
  \<^item> the slices of two different classes are disjoint;
  \<^item> the seeding step succeeds, and its characters are pairwise distinct members of
    the pool;
  \<^item> so the pool characters not used by the seed number pool size minus seed count,
    which in the no-repeat branch is at least the number of characters still to fill;
  \<^item> the only failure left is a draw from an empty pool in the branch with repeats,
    and on a non-empty pool \<open>generate_passwords\<close> returns its passwords.
\<close>

theorem validated_generation_safe:
  assumes "distinct pool" and "active_classes_ok class_names"
    and "validated pool class_names a"
  shows "generate_passwords pool class_names a r \<noteq> Inl InsufficientUniqueChars \<and>
         (\<forall>n m s t. n \<noteq> m \<and> build_pool_map pool n = Some s \<and> build_pool_map pool m = Some t
            \<longrightarrow> set s \<inter> set t = {}) \<and>
         (\<exists>picks r1.
            seed_chars class_names (build_pool_map pool) a r = Inr (picks, r1) \<and>
            distinct picks \<and> set picks \<subseteq> set pool \<and>
            length [c \<leftarrow> pool. c \<notin> set picks] = length pool - length picks \<and>
            (no_repeat a \<longrightarrow>
               nat (length_arg a - int (length picks)) \<le> length pool - length picks)) \<and>
         (\<forall>e. generate_passwords pool class_names a r = Inl e \<longrightarrow>
            e = IndexError \<and> pool = [] \<and> \<not> no_repeat a) \<and>
         (pool \<noteq> [] \<longrightarrow> (\<exists>pwds. generate_passwords pool class_names a r = Inr pwds))"
proof -
  let ?pm = "build_pool_map pool"
  have err: "e = IndexError \<and> pool = [] \<and> \<not> no_repeat a"
    if "generate_passwords pool class_names a r = Inl e" for e
  proof -
    from that generate_loop_error obtain r1 where
      "generate_core pool class_names ?pm a r1 = Inl e"
      unfolding generate_passwords_def by blast
    from generate_core_error [OF assms(2,3,1) this] show ?thesis .
  qed
  then have c1: "generate_passwords pool class_names a r \<noteq> Inl InsufficientUniqueChars"
    by blast
  have c2: "\<forall>n m s t. n \<noteq> m \<and> ?pm n = Some s \<and> ?pm m = Some t \<longrightarrow> set s \<inter> set t = {}"
    using build_pool_map_disjoint by blast
  from seed_chars_total [OF assms(2,3)] obtain picks r1 where
    s: "seed_chars class_names ?pm a r = Inr (picks, r1)" by blast
  note sp = seed_chars_sound [OF assms(2,3) s]
  have av: "length [c \<leftarrow> pool. c \<notin> set picks] = length pool - length picks"
    using available_count [OF assms(1)] sp by simp
  have en: "no_repeat a \<longrightarrow>
      nat (length_arg a - int (length picks)) \<le> length pool - length picks"
    using validated_no_repeat [OF assms(3)] by auto
  have c3: "\<exists>picks r1.
            seed_chars class_names ?pm a r = Inr (picks, r1) \<and>
            distinct picks \<and> set picks \<subseteq> set pool \<and>
            length [c \<leftarrow> pool. c \<notin> set picks] = length pool - length picks \<and>
            (no_repeat a \<longrightarrow>
               nat (length_arg a - int (length picks)) \<le> length pool - length picks)"
    using s sp av en by blast
  have c5: "\<exists>pwds. generate_passwords pool class_names a r = Inr pwds" if "pool \<noteq> []"
    unfolding generate_passwords_def
    by (rule generate_loop_total) (rule generate_core_total [OF assms(2,3,1) that])
  from c1 c2 c3 err c5 show ?thesis by blast
qed

theorem validated_generation_safe_witness:
  "distinct ''0ab'' \<and> active_classes_ok [''lower'', ''digits''] \<and>
   validated ''0ab'' [''lower'', ''digits''] example_args \<and>
   map_sum id fst
     (seed_chars [''lower'', ''digits''] (build_pool_map ''0ab'') example_args counting_tape)
     = Inr ''a0'' \<and>
   generate_passwords ''0ab'' [''lower'', ''digits''] example_args counting_tape
     = Inr [''<a0b>'', ''<b0a>''] \<and>
   generate_passwords ''0ab'' [''lower'', ''digits''] example_args counting_tape
     \<noteq> Inl InsufficientUniqueChars"
proof -
  have h1: "distinct ''0ab''" by simp
  have h2: "active_classes_ok [''lower'', ''digits'']"
    by (simp add: active_classes_ok_def standard_classes_def)
  have h3: "validated ''0ab'' [''lower'', ''digits''] example_args" by code_simp
  have s: "map_sum id fst
     (seed_chars [''lower'', ''digits''] (build_pool_map ''0ab'') example_args counting_tape)
     = Inr ''a0''" by code_simp
  have g: "generate_passwords ''0ab'' [''lower'', ''digits''] example_args counting_tape
     = Inr [''<a0b>'', ''<b0a>'']" by code_simp
  from validated_generation_safe [OF h1 h2 h3, of counting_tape] have
    "generate_passwords ''0ab'' [''lower'', ''digits''] example_args counting_tape
       \<noteq> Inl InsufficientUniqueChars"
    by blast
  with h1 h2 h3 s g show ?thesis by simp
qed


end
